theory Spec2Isabelle
  imports Complex_Main "HOL-Library.Sublist"
begin

section \<open>Python strings and the string operations the program uses\<close>

text \<open>
  A Python \<^verbatim>\<open>str\<close> is a sequence of Unicode code points, and \<^verbatim>\<open>len\<close>, \<^verbatim>\<open>find\<close>,
  \<^verbatim>\<open>rfind\<close> and slicing all count code points. A character is therefore modelled by
  its code point (what \<^verbatim>\<open>ord\<close> returns) and a string by the list of its code points.
\<close>

type_synonym pychar = nat
type_synonym pystr = "pychar list"

definition py :: "string \<Rightarrow> pystr" where
  \<comment> \<open>an ASCII literal of the source as a list of code points\<close>
  "py s = map of_char s"

definition period :: pychar where
  "period = 46"

definition space :: pychar where
  "space = 32"

definition newline :: pychar where
  "newline = 10"

fun find_at :: "'a list \<Rightarrow> 'a list \<Rightarrow> nat \<Rightarrow> int" where
  \<comment> \<open>left-to-right scan of \<^verbatim>\<open>str.find\<close>; \<open>i\<close> is the index of the head of the text left\<close>
  "find_at sub [] i = (if sub = [] then int i else - 1)"
| "find_at sub (c # cs) i = (if prefix sub (c # cs) then int i else find_at sub cs (Suc i))"

definition str_find :: "'a list \<Rightarrow> 'a list \<Rightarrow> nat \<Rightarrow> int" where
  \<comment> \<open>\<^verbatim>\<open>s.find(sub, start)\<close> for a start that is not negative: the lowest index at or after
      \<open>start\<close> where \<open>sub\<close> occurs, \<open>-1\<close> when there is none or \<open>start\<close> is past the end\<close>
  "str_find s sub start =
     (if length s < start then - 1 else find_at sub (drop start s) start)"

fun rfind_from :: "'a list \<Rightarrow> 'a list \<Rightarrow> nat \<Rightarrow> int" where
  \<comment> \<open>right-to-left scan of \<^verbatim>\<open>str.rfind\<close> over the candidate indices \<open>i, i - 1, ..., 0\<close>\<close>
  "rfind_from sub s 0 = (if prefix sub s then 0 else - 1)"
| "rfind_from sub s (Suc i) =
     (if prefix sub (drop (Suc i) s) then int (Suc i) else rfind_from sub s i)"

definition str_rfind :: "'a list \<Rightarrow> 'a list \<Rightarrow> int" where
  \<comment> \<open>\<^verbatim>\<open>s.rfind(sub)\<close>: the highest index where \<open>sub\<close> occurs, \<open>-1\<close> when there is none\<close>
  "str_rfind s sub = rfind_from sub s (length s)"

definition slice_to :: "'a list \<Rightarrow> int \<Rightarrow> 'a list" where
  \<comment> \<open>\<^verbatim>\<open>s[:k]\<close>; a negative \<open>k\<close> counts from the end\<close>
  "slice_to s k = (if k < 0 then take (nat (int (length s) + k)) s else take (nat k) s)"

definition slice_from :: "'a list \<Rightarrow> int \<Rightarrow> 'a list" where
  \<comment> \<open>\<^verbatim>\<open>s[k:]\<close>; a negative \<open>k\<close> counts from the end\<close>
  "slice_from s k = (if k < 0 then drop (nat (int (length s) + k)) s else drop (nat k) s)"

section \<open>Paragraph extraction\<close>

definition extract_paragraph :: "pystr \<Rightarrow> pystr" where
  \<comment> \<open>the body of \<^verbatim>\<open>generate_paragraph\<close> after the text has been generated\<close>
  "extract_paragraph new_text =
     (let paragraph_end = str_find new_text [period, space] 150 in
      if paragraph_end = - 1 then
        (let last_period = str_rfind new_text [period] in
         if last_period \<noteq> - 1 then slice_to new_text (last_period + 1) else new_text)
      else slice_to new_text (paragraph_end + 1))"

definition dot_space_at :: "pystr \<Rightarrow> nat \<Rightarrow> bool" where
  \<comment> \<open>a period at offset \<open>p\<close> immediately followed by a space\<close>
  "dot_space_at t p = (Suc p < length t \<and> t ! p = period \<and> t ! Suc p = space)"

definition last_period_at :: "pystr \<Rightarrow> nat \<Rightarrow> bool" where
  \<comment> \<open>the last period of the text is at offset \<open>q\<close>\<close>
  "last_period_at t q = (q < length t \<and> t ! q = period \<and> period \<notin> set (drop (Suc q) t))"

section \<open>Context window\<close>

definition update_context :: "'a list \<Rightarrow> 'a \<Rightarrow> 'a list" where
  \<comment> \<open>\<^verbatim>\<open>context_paragraphs.append(paragraph)\<close> and the truncation to the last five\<close>
  "update_context context_paragraphs paragraph =
     (let appended = context_paragraphs @ [paragraph] in
      if 5 < length appended then slice_from appended (- 5) else appended)"

section \<open>Tokenizer\<close>

text \<open>
  The pattern \<^verbatim>\<open>\b\w+\b|\s+|[^\w\s]\<close> only asks of a character whether \<^verbatim>\<open>\w\<close> matches
  it, whether \<^verbatim>\<open>\s\<close> matches it, or neither. No character is matched by both (\<^verbatim>\<open>\w\<close>
  is the alphanumerics and the underscore, \<^verbatim>\<open>\s\<close> is the whitespace), so a classification
  assigns each character one of three classes.
\<close>

datatype cclass = CWord | CSpace | COther

definition ascii_class :: "pychar \<Rightarrow> cclass" where
  \<comment> \<open>the classes of the ASCII characters: \<^verbatim>\<open>[a-zA-Z0-9_]\<close> and the ASCII whitespace\<close>
  "ascii_class c =
     (if (48 \<le> c \<and> c \<le> 57) \<or> (65 \<le> c \<and> c \<le> 90) \<or> c = 95 \<or> (97 \<le> c \<and> c \<le> 122)
        then CWord
      else if (9 \<le> c \<and> c \<le> 13) \<or> (28 \<le> c \<and> c \<le> 32) then CSpace
      else COther)"

definition char_class :: "(pychar \<Rightarrow> cclass) \<Rightarrow> pychar \<Rightarrow> cclass" where
  \<comment> \<open>the classes of all characters; \<open>uni\<close> is the table of the Unicode database for the
      characters outside ASCII, which is not part of the program\<close>
  "char_class uni c = (if c < 128 then ascii_class c else uni c)"

fun is_word_char :: "('c \<Rightarrow> cclass) \<Rightarrow> 'c option \<Rightarrow> bool" where
  \<comment> \<open>whether the character next to a position is a word character; \<open>None\<close> is an end of
      the string\<close>
  "is_word_char cls None = False"
| "is_word_char cls (Some c) = (cls c = CWord)"

definition word_boundary :: "('c \<Rightarrow> cclass) \<Rightarrow> 'c option \<Rightarrow> 'c option \<Rightarrow> bool" where
  \<comment> \<open>\<^verbatim>\<open>\b\<close> at a position, given the characters before and after it\<close>
  "word_boundary cls before after = (is_word_char cls before \<noteq> is_word_char cls after)"

fun word_run :: "('c \<Rightarrow> cclass) \<Rightarrow> 'c \<Rightarrow> 'c list \<Rightarrow> ('c list \<times> 'c list) option" where
  \<comment> \<open>the rest of \<^verbatim>\<open>\w+\b\<close> once the word character \<open>c\<close> has been consumed: the greedy
      \<^verbatim>\<open>+\<close> first tries to take one more word character and, when the rest of the
      pattern fails after that, backtracks and tries \<^verbatim>\<open>\b\<close> right here\<close>
  "word_run cls c [] =
     (if word_boundary cls (Some c) None then Some ([c], []) else None)"
| "word_run cls c (d # ds) =
     (case (if cls d = CWord then word_run cls d ds else None) of
        Some (t, rest) \<Rightarrow> Some (c # t, rest)
      | None \<Rightarrow> if word_boundary cls (Some c) (Some d) then Some ([c], d # ds) else None)"

definition alt_word ::
  "('c \<Rightarrow> cclass) \<Rightarrow> 'c option \<Rightarrow> 'c list \<Rightarrow> ('c list \<times> 'c list) option" where
  \<comment> \<open>first alternative, \<^verbatim>\<open>\b\w+\b\<close>, at a position with \<open>before\<close> to its left\<close>
  "alt_word cls before s =
     (case s of
        [] \<Rightarrow> None
      | c # cs \<Rightarrow>
          if word_boundary cls before (Some c) \<and> cls c = CWord then word_run cls c cs else None)"

definition alt_space :: "('c \<Rightarrow> cclass) \<Rightarrow> 'c list \<Rightarrow> ('c list \<times> 'c list) option" where
  \<comment> \<open>second alternative, \<^verbatim>\<open>\s+\<close>: nothing follows it in the alternative, so the greedy
      \<^verbatim>\<open>+\<close> keeps the longest run\<close>
  "alt_space cls s =
     (case takeWhile (\<lambda>c. cls c = CSpace) s of
        [] \<Rightarrow> None
      | run \<Rightarrow> Some (run, dropWhile (\<lambda>c. cls c = CSpace) s))"

definition alt_other :: "('c \<Rightarrow> cclass) \<Rightarrow> 'c list \<Rightarrow> ('c list \<times> 'c list) option" where
  \<comment> \<open>third alternative, \<^verbatim>\<open>[^\w\s]\<close>: one character of neither class\<close>
  "alt_other cls s =
     (case s of [] \<Rightarrow> None | c # cs \<Rightarrow> if cls c = COther then Some ([c], cs) else None)"

definition match_at ::
  "('c \<Rightarrow> cclass) \<Rightarrow> 'c option \<Rightarrow> 'c list \<Rightarrow> ('c list \<times> 'c list) option" where
  \<comment> \<open>the alternatives are tried in the order they are written; the result is the matched
      text and the text after it\<close>
  "match_at cls before s =
     (case alt_word cls before s of
        Some m \<Rightarrow> Some m
      | None \<Rightarrow> (case alt_space cls s of Some m \<Rightarrow> Some m | None \<Rightarrow> alt_other cls s))"

lemma word_run_shorter: "word_run cls c cs = Some (t, rest) \<Longrightarrow> length rest \<le> length cs"
proof (induction cs arbitrary: c t rest)
  case Nil
  then show ?case by (simp split: if_splits)
next
  case (Cons d ds)
  then show ?case by (fastforce split: if_splits option.splits)
qed

lemma match_at_shorter:
  assumes "match_at cls before s = Some (t, rest)"
  shows "length rest < length s"
proof (cases s)
  case Nil
  with assms show ?thesis by (simp add: match_at_def alt_word_def alt_space_def alt_other_def)
next
  case (Cons c cs)
  consider (w) "alt_word cls before s = Some (t, rest)"
    | (s) "alt_space cls s = Some (t, rest)"
    | (o) "alt_other cls s = Some (t, rest)"
    using assms by (auto simp: match_at_def split: option.splits)
  then show ?thesis
  proof cases
    case w
    with Cons show ?thesis
      by (auto simp: alt_word_def split: if_splits dest: word_run_shorter)
  next
    case s
    then have "takeWhile (\<lambda>c. cls c = CSpace) s \<noteq> []" "rest = dropWhile (\<lambda>c. cls c = CSpace) s"
      by (auto simp: alt_space_def split: list.splits)
    moreover have "length (takeWhile (\<lambda>c. cls c = CSpace) s)
                   + length (dropWhile (\<lambda>c. cls c = CSpace) s) = length s"
      by (metis length_append takeWhile_dropWhile_id)
    ultimately show ?thesis by (cases "takeWhile (\<lambda>c. cls c = CSpace) s") auto
  next
    case o
    with Cons show ?thesis by (auto simp: alt_other_def split: if_splits)
  qed
qed

function findall :: "('c \<Rightarrow> cclass) \<Rightarrow> 'c option \<Rightarrow> 'c list \<Rightarrow> 'c list list" where
  \<comment> \<open>\<^verbatim>\<open>re.findall\<close> for this pattern (it has no group, so the matches themselves are
      returned): scan from the left; after a match go on behind it, and where nothing
      matches go on one character further. \<open>before\<close> is the character to the left of
      the position. No alternative matches the empty string, so a match is never empty.\<close>
  "findall cls before [] = []"
| "findall cls before (c # cs) =
     (case match_at cls before (c # cs) of
        Some (t, rest) \<Rightarrow> t # findall cls (Some (last t)) rest
      | None \<Rightarrow> findall cls (Some c) cs)"
  by pat_completeness auto
termination
  by (relation "measure (\<lambda>(cls, before, s). length s)") (auto dest: match_at_shorter)

definition tokenize :: "('c \<Rightarrow> cclass) \<Rightarrow> 'c list \<Rightarrow> 'c list list" where
  \<comment> \<open>\<^verbatim>\<open>re.findall(r'\b\w+\b|\s+|[^\w\s]', paragraph)\<close>\<close>
  "tokenize cls paragraph = findall cls None paragraph"

section \<open>The prompt\<close>

definition SYSTEM_PROMPT :: pystr where
  "SYSTEM_PROMPT = py (''You are Hermes, the divine messenger of the Greek gods, telling an ''
     @ ''endless story. You are narrating a continuous, flowing tale about gods, heroes, and ''
     @ ''mythological events. This is a pure monologue - you are never to switch to dialogue ''
     @ ''format or include other characters speaking with quotation marks and names. You ''
     @ ''will never include instructions or commands. You must stay in character as Hermes ''
     @ ''the storyteller at all times. You will never acknowledge that you are an AI or ''
     @ ''language model. You will continue your mythological narrative indefinitely, ''
     @ ''transitioning smoothly between different myths and legends as needed.'')"

definition USER_PROMPT :: pystr where
  "USER_PROMPT = py (''Hermes, please continue telling your endless mythological story ''
     @ ''without any breaks or character switches.'')"

fun str_join :: "'a list \<Rightarrow> 'a list list \<Rightarrow> 'a list" where
  \<comment> \<open>\<^verbatim>\<open>sep.join(xs)\<close>\<close>
  "str_join sep [] = []"
| "str_join sep [x] = x"
| "str_join sep (x # y # ys) = x @ sep @ str_join sep (y # ys)"

definition format_prompt :: "pystr list \<Rightarrow> pystr" where
  "format_prompt context_paragraphs =
     (let context =
        (if context_paragraphs \<noteq> [] then str_join [newline, newline] context_paragraphs
         else [])
      in SYSTEM_PROMPT @ [newline, newline] @ USER_PROMPT @ [newline, newline] @ context)"

section \<open>Values, requests and the outside world\<close>

datatype pyval =
    PNone
  | PBool bool
  | PInt int
  | PFloat
  | PStr pystr
  | PList "pyval list"
  | PDict "(pystr \<times> pyval) list"
  \<comment> \<open>the Python values that \<^verbatim>\<open>response.json()\<close> can return; the value of a float is not
      modelled, and a dictionary is the list of its items\<close>

datatype http_response =
  Http_response (status_code: int) (response_text: pystr) (response_json: "pyval option")
  \<comment> \<open>\<open>response_json\<close> is what \<^verbatim>\<open>response.json()\<close> returns, \<open>None\<close> when it raises because
      the body is not JSON\<close>

datatype failure = Timeout | ConnectionError | OtherException
  \<comment> \<open>what \<^verbatim>\<open>requests.post\<close> raises, by the \<^verbatim>\<open>except\<close> clause that catches it\<close>

datatype post_result = Raises failure | Returns http_response

datatype exc =
    KeyboardInterrupt
  | AttributeError
  | UnicodeEncodeError
  | ValueError
  | OverflowError
  \<comment> \<open>the exceptions that reach \<^verbatim>\<open>paragraph_based_storytelling\<close>: Ctrl+C; \<^verbatim>\<open>.find\<close> on a
      generated value that is not a string; \<^verbatim>\<open>print\<close> of a token that the encoding of the
      standard output cannot encode; \<^verbatim>\<open>time.sleep\<close> of a negative delay or of NaN; and a
      number too large for \<^verbatim>\<open>time.sleep\<close> or for a float\<close>

datatype pyfloat = Finite real | PosInf | NegInf | NaN
  \<comment> \<open>a Python \<^verbatim>\<open>float\<close>, as \<^verbatim>\<open>--delay\<close> is parsed: a finite value, an infinity or NaN\<close>

definition time_sleep :: "pyfloat \<Rightarrow> exc option" where
  \<comment> \<open>what \<^verbatim>\<open>time.sleep(secs)\<close> raises, if anything: NaN is refused, then the delay is
      converted to nanoseconds in a signed 64-bit integer, which fails when it does not
      fit, and then a negative delay is refused; the product is taken exactly here, where
      the interpreter rounds it to a float first\<close>
  "time_sleep secs =
     (case secs of
        NaN \<Rightarrow> Some ValueError
      | PosInf \<Rightarrow> Some OverflowError
      | NegInf \<Rightarrow> Some OverflowError
      | Finite x \<Rightarrow>
          if \<not> (- (2 ^ 63) \<le> x * 10 ^ 9 \<and> x * 10 ^ 9 < 2 ^ 63) then Some OverflowError
          else if x < 0 then Some ValueError
          else None)"

definition end_time_error :: "int option \<Rightarrow> exc option" where
  \<comment> \<open>what \<^verbatim>\<open>start_time + (max_time_minutes * 60) if max_time_minutes else float('inf')\<close>
      raises, if anything: the sum converts the integer to a float, which fails when it
      rounds to \<open>2 ^ 1024\<close> or beyond\<close>
  "end_time_error max_time_minutes =
     (case max_time_minutes of
        None \<Rightarrow> None
      | Some m \<Rightarrow>
          if m \<noteq> 0 \<and> 2 ^ 1024 - 2 ^ 970 \<le> \<bar>m * 60\<bar> then Some OverflowError else None)"

datatype notice =
    Ollama_status_error int
  | Response_body pystr
  | Ollama_call_error
  | Send_status_warning int
  | Send_timeout_warning
  | Send_connection_warning
  | Send_error
  | Testing_connection
  | Connected
  | Probe_status_warning int
  | Continuing_anyway
  | Probe_failed
  | Continuing_locally
  | Starting pystr
  | Using_model
  | Will_run_for int
  | Running_indefinitely
  | Blank_line
  | Stopped_by_user
  | Summary_paragraphs nat
  | Summary_words int pystr
  \<comment> \<open>the message lines the program prints, with the values they show;
      \<open>Summary_words n sid\<close> is \<^verbatim>\<open>Sent {sequence_number} words to the server with session
      ID: {session_id}\<close>; the elapsed time of the summary is not modelled\<close>

datatype event =
    Ollama_post pystr
  | Word_post pystr int pystr
  | Probe_post
  | Print pystr
  | Notice notice
  | Sleep
  \<comment> \<open>what the program does to the outside: the request to the inference service (with its
      prompt), the request of \<^verbatim>\<open>send_word_to_server\<close> (word, sequence, session id), the
      connection test, \<^verbatim>\<open>print(s, end="", flush=True)\<close>, a message line, and
      \<^verbatim>\<open>time.sleep(word_delay)\<close>\<close>

record env =
  enable_posting :: bool
  uni_class :: "pychar \<Rightarrow> cclass"
  ollama_service :: "nat \<Rightarrow> pystr \<Rightarrow> post_result"
  word_server :: "nat \<Rightarrow> pystr \<times> int \<times> pystr \<Rightarrow> post_result"
  probe_result :: post_result
  before_deadline :: "nat \<Rightarrow> bool"
  uuid4 :: pystr
  stdout_encodes :: "pychar \<Rightarrow> bool"

text \<open>
  The environment of a run: the flag \<^verbatim>\<open>ENABLE_POSTING\<close>; the classes of the characters
  outside ASCII; the outcome of the \<open>k\<close>-th request to the inference service, given its
  prompt; the outcome of the \<open>k\<close>-th request of \<^verbatim>\<open>send_word_to_server\<close>, given its payload;
  the outcome of the connection test; whether \<^verbatim>\<open>time.time() < end_time\<close> holds the \<open>k\<close>-th
  time it is evaluated; the session id that \<^verbatim>\<open>uuid.uuid4()\<close> produces; and which characters
  outside ASCII the encoding of the standard output can encode.
\<close>

record world =
  trace :: "event list"
  ollama_calls :: nat
  word_calls :: nat
  sigint :: "nat option"
  sequence_number :: int
  context_paragraphs :: "pystr list"
  total_paragraphs :: nat

text \<open>
  The state of a run: what has been done to the outside so far, how many requests of each
  kind have been made, how many more statements run before Ctrl+C is delivered (\<open>None\<close>:
  it never is), and the local variables of \<^verbatim>\<open>paragraph_based_storytelling\<close> that the
  loop updates and the summary reads.
\<close>

type_synonym 'a action = "world \<Rightarrow> (exc + 'a) \<times> world"

definition ret :: "'a \<Rightarrow> 'a action" where
  "ret a w = (Inr a, w)"

definition raise :: "exc \<Rightarrow> 'a action" where
  "raise x w = (Inl x, w)"

definition and_then :: "'a action \<Rightarrow> ('a \<Rightarrow> 'b action) \<Rightarrow> 'b action" where
  \<comment> \<open>one statement after another; an exception skips what follows\<close>
  "and_then m f w = (case m w of (Inl x, w') \<Rightarrow> (Inl x, w') | (Inr a, w') \<Rightarrow> f a w')"

definition modify :: "(world \<Rightarrow> world) \<Rightarrow> unit action" where
  "modify f w = (Inr (), f w)"

definition checkpoint :: "unit action" where
  \<comment> \<open>the start of a statement: Ctrl+C is delivered here when it is due, and once only\<close>
  "checkpoint w =
     (case sigint w of
        None \<Rightarrow> (Inr (), w)
      | Some 0 \<Rightarrow> (Inl KeyboardInterrupt, w\<lparr>sigint := None\<rparr>)
      | Some (Suc n) \<Rightarrow> (Inr (), w\<lparr>sigint := Some n\<rparr>))"

definition log :: "event \<Rightarrow> unit action" where
  \<comment> \<open>a statement whose effect is the event\<close>
  "log e = and_then checkpoint (\<lambda>_. modify (\<lambda>w. w\<lparr>trace := trace w @ [e]\<rparr>))"

definition encodable :: "env \<Rightarrow> pystr \<Rightarrow> bool" where
  \<comment> \<open>the standard output can encode the string; ASCII is always encoded\<close>
  "encodable e s = list_all (\<lambda>c. c < 128 \<or> stdout_encodes e c) s"

definition print_text :: "env \<Rightarrow> pystr \<Rightarrow> unit action" where
  \<comment> \<open>\<^verbatim>\<open>print(s, end="", flush=True)\<close>: the string is encoded as a whole before anything
      is written\<close>
  "print_text e s =
     and_then checkpoint (\<lambda>_.
       if encodable e s then modify (\<lambda>w. w\<lparr>trace := trace w @ [Print s]\<rparr>)
       else raise UnicodeEncodeError)"

definition sleep :: "pyfloat \<Rightarrow> unit action" where
  \<comment> \<open>\<^verbatim>\<open>time.sleep(word_delay)\<close>\<close>
  "sleep word_delay =
     and_then checkpoint (\<lambda>_.
       case time_sleep word_delay of
         Some x \<Rightarrow> raise x
       | None \<Rightarrow> modify (\<lambda>w. w\<lparr>trace := trace w @ [Sleep]\<rparr>))"

definition post_ollama :: "env \<Rightarrow> pystr \<Rightarrow> post_result action" where
  \<comment> \<open>\<^verbatim>\<open>requests.post(OLLAMA_URL, json=payload)\<close>; Ctrl+C can also arrive while it waits\<close>
  "post_ollama e prompt =
     and_then checkpoint (\<lambda>_ w.
       and_then checkpoint (\<lambda>_. ret (ollama_service e (ollama_calls w) prompt))
         (w\<lparr>trace := trace w @ [Ollama_post prompt], ollama_calls := Suc (ollama_calls w)\<rparr>))"

definition post_word :: "env \<Rightarrow> pystr \<Rightarrow> int \<Rightarrow> pystr \<Rightarrow> post_result action" where
  \<comment> \<open>\<^verbatim>\<open>requests.post(POST_URL, headers=HEADERS, json=payload, timeout=5)\<close> in
      \<^verbatim>\<open>send_word_to_server\<close>\<close>
  "post_word e word n sid =
     and_then checkpoint (\<lambda>_ w.
       and_then checkpoint (\<lambda>_. ret (word_server e (word_calls w) (word, n, sid)))
         (w\<lparr>trace := trace w @ [Word_post word n sid], word_calls := Suc (word_calls w)\<rparr>))"

definition post_probe :: "env \<Rightarrow> post_result action" where
  \<comment> \<open>the \<^verbatim>\<open>requests.post\<close> of the connection test\<close>
  "post_probe e =
     and_then checkpoint (\<lambda>_ w.
       and_then checkpoint (\<lambda>_. ret (probe_result e)) (w\<lparr>trace := trace w @ [Probe_post]\<rparr>))"

section \<open>The inference client and the publisher\<close>

definition generate_with_ollama :: "env \<Rightarrow> pystr \<Rightarrow> pyval action" where
  "generate_with_ollama e prompt =
     and_then (post_ollama e prompt) (\<lambda>r.
       case r of
         Returns response \<Rightarrow>
           if status_code response = 200 then
             (case response_json response of
                Some (PDict items) \<Rightarrow>
                  ret (case map_of items (py ''response'') of
                         Some v \<Rightarrow> v
                       | None \<Rightarrow> PStr [])
              | _ \<Rightarrow> and_then (log (Notice Ollama_call_error)) (\<lambda>_. ret (PStr [])))
           else
             and_then (log (Notice (Ollama_status_error (status_code response)))) (\<lambda>_.
             and_then (log (Notice (Response_body (response_text response)))) (\<lambda>_.
             ret (PStr [])))
       | Raises x \<Rightarrow> and_then (log (Notice Ollama_call_error)) (\<lambda>_. ret (PStr [])))"

definition send_word_to_server :: "env \<Rightarrow> pystr \<Rightarrow> int \<Rightarrow> pystr \<Rightarrow> bool action" where
  "send_word_to_server e word sequence session_id =
     and_then (post_word e word sequence session_id) (\<lambda>r.
       case r of
         Returns response \<Rightarrow>
           if status_code response = 200 then ret True
           else
             and_then (log (Notice (Send_status_warning (status_code response)))) (\<lambda>_.
             and_then (log (Notice (Response_body (response_text response)))) (\<lambda>_.
             ret False))
       | Raises Timeout \<Rightarrow> and_then (log (Notice Send_timeout_warning)) (\<lambda>_. ret False)
       | Raises ConnectionError \<Rightarrow>
           and_then (log (Notice Send_connection_warning)) (\<lambda>_. ret False)
       | Raises OtherException \<Rightarrow> and_then (log (Notice Send_error)) (\<lambda>_. ret False))"

section \<open>Displaying and sending a paragraph\<close>

text \<open>
  The parameter \<^verbatim>\<open>sequence_number\<close> of \<^verbatim>\<open>send_word_to_server\<close> and of
  \<^verbatim>\<open>display_and_send_paragraph_word_by_word\<close> is written \<open>sequence\<close> here, after the key of
  the payload, since \<open>sequence_number\<close> names the variable of the driver loop.
\<close>

definition display_word :: "env \<Rightarrow> pystr \<Rightarrow> int \<Rightarrow> pystr \<Rightarrow> pyfloat \<Rightarrow> int action" where
  \<comment> \<open>one pass of the \<^verbatim>\<open>for word in words\<close> loop; the result is the sequence number after
      it\<close>
  "display_word e word sequence session_id word_delay =
     and_then
       (if enable_posting e then
          and_then (send_word_to_server e word sequence session_id) (\<lambda>send_success.
            if \<not> send_success then print_text e [period] else ret ())
        else ret ())
       (\<lambda>_. and_then checkpoint (\<lambda>_.
             and_then (print_text e word) (\<lambda>_.
             and_then (sleep word_delay) (\<lambda>_.
             ret (sequence + 1)))))"

fun display_words :: "env \<Rightarrow> pystr list \<Rightarrow> int \<Rightarrow> pystr \<Rightarrow> pyfloat \<Rightarrow> int action" where
  "display_words e [] sequence session_id word_delay = ret sequence"
| "display_words e (word # words) sequence session_id word_delay =
     and_then (display_word e word sequence session_id word_delay) (\<lambda>n.
       display_words e words n session_id word_delay)"

definition display_and_send_paragraph_word_by_word ::
  "env \<Rightarrow> pystr \<Rightarrow> int \<Rightarrow> pystr \<Rightarrow> pyfloat \<Rightarrow> int action" where
  "display_and_send_paragraph_word_by_word e paragraph sequence session_id word_delay =
     display_words e (tokenize (char_class (uni_class e)) paragraph) sequence session_id
       word_delay"

section \<open>Generating a paragraph\<close>

definition generate_paragraph :: "env \<Rightarrow> pystr list \<Rightarrow> pystr action" where
  \<comment> \<open>a generated value that is not a string has no \<^verbatim>\<open>find\<close>\<close>
  "generate_paragraph e context =
     and_then (generate_with_ollama e (format_prompt context)) (\<lambda>new_text.
       case new_text of
         PStr t \<Rightarrow> ret (extract_paragraph t)
       | _ \<Rightarrow> raise AttributeError)"

section \<open>The driver loop\<close>

definition loop_body :: "env \<Rightarrow> pystr \<Rightarrow> pyfloat \<Rightarrow> unit action" where
  \<comment> \<open>the body of the \<^verbatim>\<open>while\<close> loop; an assignment happens only when the call on its right
      has returned\<close>
  "loop_body e session_id word_delay =
     and_then (\<lambda>w. generate_paragraph e (context_paragraphs w) w) (\<lambda>paragraph.
     and_then (\<lambda>w. display_and_send_paragraph_word_by_word e paragraph (sequence_number w)
                      session_id word_delay w) (\<lambda>n.
     and_then (modify (\<lambda>w. w\<lparr>sequence_number := n\<rparr>)) (\<lambda>_.
     and_then checkpoint (\<lambda>_.
     and_then (modify (\<lambda>w. w\<lparr>context_paragraphs :=
                                update_context (context_paragraphs w) paragraph\<rparr>)) (\<lambda>_.
     and_then checkpoint (\<lambda>_.
     and_then (modify (\<lambda>w. w\<lparr>total_paragraphs := total_paragraphs w + 1\<rparr>)) (\<lambda>_.
     and_then (print_text e [newline]) (\<lambda>_.
     and_then (\<lambda>w. display_and_send_paragraph_word_by_word e [newline] (sequence_number w)
                      session_id word_delay w) (\<lambda>n'.
     modify (\<lambda>w. w\<lparr>sequence_number := n'\<rparr>))))))))))"

definition loop_condition :: "env \<Rightarrow> int option \<Rightarrow> nat \<Rightarrow> bool" where
  \<comment> \<open>\<^verbatim>\<open>time.time() < end_time\<close>: \<open>end_time\<close> is infinite when \<^verbatim>\<open>max_time_minutes\<close> is
      \<^verbatim>\<open>None\<close> or 0, and is a real deadline otherwise\<close>
  "loop_condition e max_time_minutes k =
     (case max_time_minutes of
        None \<Rightarrow> True
      | Some m \<Rightarrow> if m = 0 then True else before_deadline e k)"

fun storytelling_loop ::
  "nat \<Rightarrow> env \<Rightarrow> int option \<Rightarrow> pyfloat \<Rightarrow> pystr \<Rightarrow> nat \<Rightarrow> world \<Rightarrow>
   ((exc + unit) \<times> world) option" where
  \<comment> \<open>the \<^verbatim>\<open>while\<close> loop, which may run forever: \<open>fuel\<close> bounds the number of times the
      condition is evaluated, and \<open>None\<close> says the loop was still running when it ran out;
      \<open>k\<close> counts the evaluations of the condition\<close>
  "storytelling_loop 0 e max_time_minutes word_delay session_id k w = None"
| "storytelling_loop (Suc fuel) e max_time_minutes word_delay session_id k w =
     (case checkpoint w of
        (Inl x, w') \<Rightarrow> Some (Inl x, w')
      | (Inr _, w') \<Rightarrow>
          if loop_condition e max_time_minutes k then
            (case loop_body e session_id word_delay w' of
               (Inl x, w'') \<Rightarrow> Some (Inl x, w'')
             | (Inr _, w'') \<Rightarrow>
                 storytelling_loop fuel e max_time_minutes word_delay session_id (Suc k) w'')
          else Some (Inr (), w'))"

definition connection_test :: "env \<Rightarrow> unit action" where
  \<comment> \<open>the test of the server connection before the run starts\<close>
  "connection_test e =
     (if enable_posting e then
        and_then (log (Notice Testing_connection)) (\<lambda>_.
        and_then (post_probe e) (\<lambda>r.
          case r of
            Returns response \<Rightarrow>
              if status_code response = 200 then log (Notice Connected)
              else
                and_then (log (Notice (Probe_status_warning (status_code response)))) (\<lambda>_.
                and_then (log (Notice (Response_body (response_text response)))) (\<lambda>_.
                log (Notice Continuing_anyway)))
          | Raises x \<Rightarrow>
              and_then (log (Notice Probe_failed)) (\<lambda>_. log (Notice Continuing_locally))))
      else ret ())"

definition announce :: "pystr \<Rightarrow> int option \<Rightarrow> unit action" where
  \<comment> \<open>the lines printed before the loop starts\<close>
  "announce session_id max_time_minutes =
     and_then (log (Notice (Starting session_id))) (\<lambda>_.
     and_then (log (Notice Using_model)) (\<lambda>_.
     and_then (case max_time_minutes of
                 None \<Rightarrow> log (Notice Running_indefinitely)
               | Some m \<Rightarrow>
                   if m = 0 then log (Notice Running_indefinitely)
                   else log (Notice (Will_run_for m))) (\<lambda>_.
     log (Notice Blank_line))))"

definition summary :: "pystr \<Rightarrow> unit action" where
  \<comment> \<open>the two lines printed after the loop\<close>
  "summary session_id =
     and_then (\<lambda>w. log (Notice (Summary_paragraphs (total_paragraphs w))) w) (\<lambda>_ w.
       log (Notice (Summary_words (sequence_number w) session_id)) w)"

definition compute_end_time :: "int option \<Rightarrow> unit action" where
  \<comment> \<open>the statement that computes \<^verbatim>\<open>end_time\<close>\<close>
  "compute_end_time max_time_minutes =
     and_then checkpoint (\<lambda>_.
       case end_time_error max_time_minutes of Some x \<Rightarrow> raise x | None \<Rightarrow> ret ())"

definition startup :: "env \<Rightarrow> int option \<Rightarrow> unit action" where
  \<comment> \<open>everything before the \<^verbatim>\<open>try\<close>\<close>
  "startup e max_time_minutes =
     and_then (connection_test e) (\<lambda>_.
     and_then (modify (\<lambda>w. w\<lparr>sequence_number := 0, context_paragraphs := []\<rparr>)) (\<lambda>_.
     and_then (announce (uuid4 e) max_time_minutes) (\<lambda>_.
     and_then (compute_end_time max_time_minutes) (\<lambda>_.
     modify (\<lambda>w. w\<lparr>total_paragraphs := 0\<rparr>)))))"

definition paragraph_based_storytelling ::
  "nat \<Rightarrow> env \<Rightarrow> int option \<Rightarrow> pyfloat \<Rightarrow> world \<Rightarrow> ((exc + unit) \<times> world) option" where
  \<comment> \<open>the whole run; only the loop is inside the \<^verbatim>\<open>try\<close>, which catches Ctrl+C and nothing
      else\<close>
  "paragraph_based_storytelling fuel e max_time_minutes word_delay w =
     (let session_id = uuid4 e in
      case startup e max_time_minutes w of
        (Inl x, w') \<Rightarrow> Some (Inl x, w')
      | (Inr _, w') \<Rightarrow>
          (case storytelling_loop fuel e max_time_minutes word_delay session_id 0 w' of
             None \<Rightarrow> None
           | Some (Inl KeyboardInterrupt, w'') \<Rightarrow>
               Some (and_then (log (Notice Stopped_by_user)) (\<lambda>_. summary session_id) w'')
           | Some (Inl x, w'') \<Rightarrow> Some (Inl x, w'')
           | Some (Inr _, w'') \<Rightarrow> Some (summary session_id w'')))"

definition start_world :: "nat option \<Rightarrow> world" where
  \<comment> \<open>the state when the program starts, with the time at which Ctrl+C will be pressed\<close>
  "start_world ctrl_c =
     \<lparr>trace = [], ollama_calls = 0, word_calls = 0, sigint = ctrl_c,
      sequence_number = 0, context_paragraphs = [], total_paragraphs = 0\<rparr>"

section \<open>What a trace shows\<close>

fun word_post_of :: "event \<Rightarrow> (pystr \<times> int \<times> pystr) list" where
  "word_post_of (Word_post word n sid) = [(word, n, sid)]"
| "word_post_of _ = []"

definition word_posts :: "event list \<Rightarrow> (pystr \<times> int \<times> pystr) list" where
  \<comment> \<open>the payloads \<^verbatim>\<open>send_word_to_server\<close> was called with, in order\<close>
  "word_posts tr = concat (map word_post_of tr)"

fun printed_of :: "event \<Rightarrow> pystr list" where
  "printed_of (Print s) = [s]"
| "printed_of _ = []"

definition printed :: "event list \<Rightarrow> pystr list" where
  \<comment> \<open>the strings given to \<^verbatim>\<open>print(s, end="", flush=True)\<close>, in order\<close>
  "printed tr = concat (map printed_of tr)"

fun summary_of :: "event \<Rightarrow> (int \<times> pystr) list" where
  "summary_of (Notice (Summary_words n sid)) = [(n, sid)]"
| "summary_of _ = []"

definition reported :: "event list \<Rightarrow> (int \<times> pystr) list" where
  \<comment> \<open>the word count and the session id of the final summary\<close>
  "reported tr = concat (map summary_of tr)"

section \<open>Concrete environments\<close>

definition utf8_encodes :: "pychar \<Rightarrow> bool" where
  \<comment> \<open>UTF-8 encodes every character but the surrogates\<close>
  "utf8_encodes c = (\<not> (55296 \<le> c \<and> c \<le> 57343))"

definition text_response :: "pystr \<Rightarrow> post_result" where
  \<comment> \<open>a response with status 200 whose body is \<^verbatim>\<open>{"response": t}\<close>\<close>
  "text_response t = Returns (Http_response 200 [] (Some (PDict [(py ''response'', PStr t)])))"

definition status_response :: "int \<Rightarrow> post_result" where
  \<comment> \<open>a response with the given status and an empty body\<close>
  "status_response code = Returns (Http_response code [] None)"

definition example_env :: "bool \<Rightarrow> post_result \<Rightarrow> post_result \<Rightarrow> env" where
  \<comment> \<open>an environment in which every generation and every delivery has the same outcome,
      time allows one pass of the loop, every character outside ASCII is punctuation, and
      the standard output is ASCII\<close>
  "example_env posting generation delivery =
     \<lparr>enable_posting = posting, uni_class = (\<lambda>_. COther),
      ollama_service = (\<lambda>k prompt. generation), word_server = (\<lambda>k payload. delivery),
      probe_result = delivery, before_deadline = (\<lambda>k. k < 1), uuid4 = py ''session'',
      stdout_encodes = (\<lambda>c. False)\<rparr>"

section \<open>Descriptions of the outcomes, used in the proofs\<close>

text \<open>
  What \<open>send_word_to_server\<close> returns and prints for an outcome of its request, what
  \<open>generate_with_ollama\<close> returns and prints for an outcome of its request, the events of
  displaying and sending words when Ctrl+C is not pressed, and the payloads of a list of
  words numbered from \<open>n\<close>.
\<close>

fun send_outcome :: "post_result \<Rightarrow> bool \<times> event list" where
  "send_outcome (Returns response) =
     (if status_code response = 200 then (True, [])
      else (False, [Notice (Send_status_warning (status_code response)),
                    Notice (Response_body (response_text response))]))"
| "send_outcome (Raises Timeout) = (False, [Notice Send_timeout_warning])"
| "send_outcome (Raises ConnectionError) = (False, [Notice Send_connection_warning])"
| "send_outcome (Raises OtherException) = (False, [Notice Send_error])"


fun word_events :: "env \<Rightarrow> pystr \<Rightarrow> int \<Rightarrow> pystr \<Rightarrow> nat \<Rightarrow> event list" where
  "word_events e word n sid k =
     (if enable_posting e then
        Word_post word n sid # snd (send_outcome (word_server e k (word, n, sid)))
        @ (if fst (send_outcome (word_server e k (word, n, sid))) then [] else [Print [period]])
      else [])
     @ [Print word, Sleep]"




definition post_numbers :: "event list \<Rightarrow> int list" where
  \<comment> \<open>the sequence numbers \<^verbatim>\<open>send_word_to_server\<close> was called with, in order\<close>
  "post_numbers tr = map (\<lambda>(word, n, sid). n) (word_posts tr)"

definition contiguous :: "int list \<Rightarrow> bool" where
  \<comment> \<open>the numbers are \<open>0, 1, 2, ...\<close> in this order: no gap and no repeat\<close>
  "contiguous ns = (ns = map int [0..<length ns])"

section \<open>Invariants of a run\<close>

definition triple ::
  "(world \<Rightarrow> bool) \<Rightarrow> 'a action \<Rightarrow> ('a \<Rightarrow> world \<Rightarrow> bool) \<Rightarrow> (exc \<Rightarrow> world \<Rightarrow> bool) \<Rightarrow> bool" where
  \<comment> \<open>from a state with \<open>P\<close>, the action ends either with a result and a state with \<open>Q\<close> or
      with an exception and a state with \<open>E\<close>\<close>
  "triple P m Q E =
     (\<forall>w. P w \<longrightarrow> (case m w of (Inl x, w') \<Rightarrow> E x w' | (Inr a, w') \<Rightarrow> Q a w'))"

definition sent_ok :: "env \<Rightarrow> bool \<Rightarrow> world \<Rightarrow> bool" where
  \<comment> \<open>what holds of the requests at every moment of a run: the sequence numbers sent are
      contiguous from 0, nothing is sent when posting is disabled, and no summary has been
      printed; with \<open>q\<close>, Ctrl+C is moreover never pressed\<close>
  "sent_ok e q w =
     (contiguous (post_numbers (trace w)) \<and>
      (\<not> enable_posting e \<longrightarrow> word_posts (trace w) = []) \<and>
      reported (trace w) = [] \<and>
      (q \<longrightarrow> sigint w = None))"

definition next_is :: "env \<Rightarrow> bool \<Rightarrow> int \<Rightarrow> world \<Rightarrow> bool" where
  \<comment> \<open>moreover \<open>n\<close> is the number of the next word to send\<close>
  "next_is e q n w =
     (sent_ok e q w \<and> (enable_posting e \<longrightarrow> n = int (length (word_posts (trace w)))))"

definition failed_ok :: "env \<Rightarrow> bool \<Rightarrow> exc \<Rightarrow> world \<Rightarrow> bool" where
  \<comment> \<open>what holds when an exception leaves a statement; Ctrl+C is delivered once\<close>
  "failed_ok e q x w =
     (sent_ok e q w \<and> (q \<longrightarrow> x \<noteq> KeyboardInterrupt) \<and>
      (x = KeyboardInterrupt \<longrightarrow> sigint w = None))"

definition in_step :: "env \<Rightarrow> bool \<Rightarrow> world \<Rightarrow> bool" where
  \<comment> \<open>between the statements of the driver loop, the variable \<open>sequence_number\<close> is the
      number of the next word to send\<close>
  "in_step e q w = next_is e q (sequence_number w) w"




section \<open>Facts about the string operations\<close>

lemma find_at_lower: "find_at sub s i = - 1 \<or> int i \<le> find_at sub s i"
  by (induction s arbitrary: i) (auto, force)

lemma find_at_none:
  "find_at sub s i = - 1 \<longleftrightarrow> (\<forall>j \<le> length s. \<not> prefix sub (drop j s))"
proof (induction s arbitrary: i)
  case Nil
  then show ?case by auto
next
  case (Cons c cs)
  show ?case
  proof (cases "prefix sub (c # cs)")
    case True
    then have "\<exists>j \<le> length (c # cs). prefix sub (drop j (c # cs))"
      by (intro exI [of _ 0]) simp
    with True show ?thesis by auto
  next
    case False
    have "(\<forall>j \<le> length (c # cs). \<not> prefix sub (drop j (c # cs))) \<longleftrightarrow>
          (\<forall>j \<le> length cs. \<not> prefix sub (drop j cs))"
    proof
      assume h: "\<forall>j \<le> length (c # cs). \<not> prefix sub (drop j (c # cs))"
      show "\<forall>j \<le> length cs. \<not> prefix sub (drop j cs)"
      proof (intro allI impI)
        fix j assume "j \<le> length cs"
        with h [rule_format, of "Suc j"] show "\<not> prefix sub (drop j cs)" by simp
      qed
    next
      assume h: "\<forall>j \<le> length cs. \<not> prefix sub (drop j cs)"
      show "\<forall>j \<le> length (c # cs). \<not> prefix sub (drop j (c # cs))"
      proof (intro allI impI)
        fix j assume j: "j \<le> length (c # cs)"
        show "\<not> prefix sub (drop j (c # cs))"
        proof (cases j)
          case 0
          with False show ?thesis by simp
        next
          case (Suc k)
          with j h [rule_format, of k] show ?thesis by simp
        qed
      qed
    qed
    with False Cons.IH [of "Suc i"] show ?thesis by simp
  qed
qed

lemma find_at_first:
  "prefix sub (drop k s) \<Longrightarrow> k \<le> length s \<Longrightarrow> \<forall>j < k. \<not> prefix sub (drop j s) \<Longrightarrow>
   find_at sub s i = int (i + k)"
proof (induction s arbitrary: i k)
  case Nil
  then show ?case by simp
next
  case (Cons c cs)
  show ?case
  proof (cases k)
    case 0
    with Cons.prems show ?thesis by simp
  next
    case (Suc m)
    with Cons.prems have nz: "\<not> prefix sub (c # cs)" by auto
    have pm: "prefix sub (drop m cs)" using Cons.prems Suc by simp
    have lm: "m \<le> length cs" using Cons.prems Suc by simp
    have "\<forall>j < m. \<not> prefix sub (drop j cs)"
    proof (intro allI impI)
      fix j assume "j < m"
      then have "Suc j < k" using Suc by simp
      with Cons.prems(3) have "\<not> prefix sub (drop (Suc j) (c # cs))" by blast
      then show "\<not> prefix sub (drop j cs)" by simp
    qed
    from Cons.IH [OF pm lm this, of "Suc i"] nz Suc show ?thesis by simp
  qed
qed

lemma rfind_from_none:
  "rfind_from sub s n = - 1 \<longleftrightarrow> (\<forall>j \<le> n. \<not> prefix sub (drop j s))"
proof (induction n)
  case 0
  then show ?case by simp
next
  case (Suc n)
  show ?case
  proof (cases "prefix sub (drop (Suc n) s)")
    case True
    then show ?thesis by auto
  next
    case False
    have "(\<forall>j \<le> Suc n. \<not> prefix sub (drop j s)) \<longleftrightarrow> (\<forall>j \<le> n. \<not> prefix sub (drop j s))"
      using False by (auto simp: le_Suc_eq)
    with False Suc.IH show ?thesis by simp
  qed
qed

lemma rfind_from_last:
  "prefix sub (drop k s) \<Longrightarrow> k \<le> n \<Longrightarrow> \<forall>j. k < j \<and> j \<le> n \<longrightarrow> \<not> prefix sub (drop j s) \<Longrightarrow>
   rfind_from sub s n = int k"
proof (induction n)
  case 0
  then show ?case by simp
next
  case (Suc n)
  show ?case
  proof (cases "k = Suc n")
    case True
    with Suc.prems show ?thesis by simp
  next
    case False
    with Suc.prems have kn: "k \<le> n" by simp
    have np: "\<not> prefix sub (drop (Suc n) s)" using Suc.prems(3) kn by auto
    have "\<forall>j. k < j \<and> j \<le> n \<longrightarrow> \<not> prefix sub (drop j s)" using Suc.prems(3) by auto
    from Suc.IH [OF Suc.prems(1) kn this] np show ?thesis by simp
  qed
qed

lemma prefix_single_drop:
  "prefix [a] (drop j s) \<longleftrightarrow> j < length s \<and> s ! j = a"
proof (cases "j < length s")
  case True
  then have "drop j s = s ! j # drop (Suc j) s" by (simp add: Cons_nth_drop_Suc)
  with True show ?thesis by auto
next
  case False
  then show ?thesis by simp
qed

lemma prefix_pair_drop:
  "prefix [a, b] (drop j s) \<longleftrightarrow> Suc j < length s \<and> s ! j = a \<and> s ! Suc j = b"
proof (cases "Suc j < length s")
  case True
  then have "drop j s = s ! j # s ! Suc j # drop (Suc (Suc j)) s"
    by (simp add: Cons_nth_drop_Suc)
  then show ?thesis using True by auto
next
  case False
  show ?thesis
  proof (cases "j < length s")
    case True
    with False have "drop j s = [s ! j]"
      by (metis Cons_nth_drop_Suc Suc_lessI drop_all le_refl)
    with False show ?thesis by simp
  next
    case F2: False
    with False show ?thesis by simp
  qed
qed

section \<open>The extracted paragraph\<close>

text \<open>
  C3: when the text has a period immediately followed by a space with the period at offset
  150 or later, and \<open>p\<close> is the first such offset, \<open>extract_paragraph\<close> returns the prefix
  of the text that ends at and includes that period, \<open>text[0..p+1)\<close>.
\<close>

theorem extract_paragraph_first_dot_space:
  assumes "150 \<le> p" and "dot_space_at t p"
    and "\<forall>q. 150 \<le> q \<and> q < p \<longrightarrow> \<not> dot_space_at t q"
  shows "extract_paragraph t = take (Suc p) t"
proof -
  have len: "150 \<le> length t" using assms(1,2) by (simp add: dot_space_at_def)
  have pre: "prefix [period, space] (drop (p - 150) (drop 150 t))"
    using assms(1,2) by (simp add: prefix_pair_drop dot_space_at_def)
  have bound: "p - 150 \<le> length (drop 150 t)"
    using assms(1,2) by (auto simp: dot_space_at_def)
  have first: "\<forall>j < p - 150. \<not> prefix [period, space] (drop j (drop 150 t))"
  proof (intro allI impI)
    fix j assume "j < p - 150"
    then have "150 \<le> j + 150 \<and> j + 150 < p" by simp
    with assms(3) have "\<not> dot_space_at t (j + 150)" by blast
    then show "\<not> prefix [period, space] (drop j (drop 150 t))"
      by (simp add: prefix_pair_drop dot_space_at_def add.commute)
  qed
  have "str_find t [period, space] 150 = int p"
    using find_at_first [OF pre bound first, of 150] len assms(1) by (simp add: str_find_def)
  moreover have "nat (int p + 1) = Suc p" by arith
  ultimately show ?thesis by (simp add: extract_paragraph_def slice_to_def)
qed

theorem extract_paragraph_first_dot_space_witness:
  "extract_paragraph (replicate 150 97 @ py ''.x. y. z'') = replicate 150 97 @ py ''.x.''"
proof -
  let ?t = "replicate 150 97 @ py ''.x. y. z''"
  have a: "(150::nat) \<le> 152" by simp
  have b: "dot_space_at ?t 152"
    by (simp add: dot_space_at_def py_def nth_append period_def space_def)
  have c: "\<forall>q. 150 \<le> q \<and> q < 152 \<longrightarrow> \<not> dot_space_at ?t q"
  proof (intro allI impI)
    fix q :: nat assume "150 \<le> q \<and> q < 152"
    then have "q = 150 \<or> q = 151" by arith
    then show "\<not> dot_space_at ?t q"
      by (auto simp: dot_space_at_def py_def nth_append period_def space_def)
  qed
  show ?thesis
    using extract_paragraph_first_dot_space [OF a b c] by (simp add: py_def)
qed

lemma str_find_none:
  "str_find t [period, space] 150 = - 1 \<longleftrightarrow> (\<forall>q \<ge> 150. \<not> dot_space_at t q)"
proof (cases "length t < 150")
  case True
  then show ?thesis by (auto simp: str_find_def dot_space_at_def)
next
  case False
  have "(\<forall>j \<le> length (drop 150 t). \<not> prefix [period, space] (drop j (drop 150 t)))
        \<longleftrightarrow> (\<forall>q \<ge> 150. \<not> dot_space_at t q)" (is "?L \<longleftrightarrow> ?R")
  proof
    assume L: ?L
    show ?R
    proof (intro allI impI)
      fix q :: nat assume q: "150 \<le> q"
      show "\<not> dot_space_at t q"
      proof
        assume d: "dot_space_at t q"
        then have "q - 150 \<le> length (drop 150 t)" by (auto simp: dot_space_at_def)
        with L have "\<not> prefix [period, space] (drop (q - 150) (drop 150 t))" by blast
        with d q show False by (simp add: prefix_pair_drop dot_space_at_def)
      qed
    qed
  next
    assume R: ?R
    show ?L
    proof (intro allI impI)
      fix j assume "j \<le> length (drop 150 t)"
      from R have "\<not> dot_space_at t (j + 150)" by simp
      then show "\<not> prefix [period, space] (drop j (drop 150 t))"
        by (simp add: prefix_pair_drop dot_space_at_def add.commute)
    qed
  qed
  with False show ?thesis by (simp add: str_find_def find_at_none)
qed

lemma str_rfind_none: "str_rfind t [a] = - 1 \<longleftrightarrow> a \<notin> set t"
proof -
  have "(\<forall>j \<le> length t. \<not> (j < length t \<and> t ! j = a)) \<longleftrightarrow> a \<notin> set t"
    by (metis in_set_conv_nth less_imp_le_nat)
  then show ?thesis by (simp add: str_rfind_def rfind_from_none prefix_single_drop)
qed

lemma str_rfind_last:
  assumes "q < length t" "t ! q = a" "\<forall>r. q < r \<and> r < length t \<longrightarrow> t ! r \<noteq> a"
  shows "str_rfind t [a] = int q"
  unfolding str_rfind_def
  by (rule rfind_from_last) (use assms in \<open>auto simp: prefix_single_drop\<close>)

lemma last_period_at_iff:
  "last_period_at t q \<longleftrightarrow>
     q < length t \<and> t ! q = period \<and> (\<forall>r. q < r \<and> r < length t \<longrightarrow> t ! r \<noteq> period)"
proof -
  have "period \<in> set (drop (Suc q) t) \<longleftrightarrow> (\<exists>r. q < r \<and> r < length t \<and> t ! r = period)"
  proof
    assume "period \<in> set (drop (Suc q) t)"
    then obtain i where i: "i < length (drop (Suc q) t)" "drop (Suc q) t ! i = period"
      by (auto simp: in_set_conv_nth)
    then have "q < Suc q + i \<and> Suc q + i < length t \<and> t ! (Suc q + i) = period" by auto
    then show "\<exists>r. q < r \<and> r < length t \<and> t ! r = period" by blast
  next
    assume "\<exists>r. q < r \<and> r < length t \<and> t ! r = period"
    then obtain r where r: "q < r" "r < length t" "t ! r = period" by blast
    then have "r - Suc q < length (drop (Suc q) t)" "drop (Suc q) t ! (r - Suc q) = period"
      by auto
    then show "period \<in> set (drop (Suc q) t)" by (metis nth_mem)
  qed
  then show ?thesis unfolding last_period_at_def by blast
qed

text \<open>
  C4: when the text has no period followed by a space at offset 150 or later, then: if the
  last period of the text is at offset \<open>q\<close>, \<open>extract_paragraph\<close> returns the prefix that
  ends at and includes it, \<open>text[0..q+1)\<close>; a text that contains a period has such a last
  period; and a text with no period at all, the empty text included, is returned unchanged.
\<close>

theorem extract_paragraph_fallback:
  assumes "\<forall>q \<ge> 150. \<not> dot_space_at t q"
  shows "(\<forall>q. last_period_at t q \<longrightarrow> extract_paragraph t = take (Suc q) t) \<and>
         (period \<in> set t \<longrightarrow> (\<exists>q. last_period_at t q)) \<and>
         (period \<notin> set t \<longrightarrow> extract_paragraph t = t)"
proof -
  have none: "str_find t [period, space] 150 = - 1" using assms by (simp add: str_find_none)
  have a: "extract_paragraph t = take (Suc q) t" if "last_period_at t q" for q
  proof -
    have "str_rfind t [period] = int q"
      using that by (intro str_rfind_last) (auto simp: last_period_at_iff)
    moreover have "nat (int q + 1) = Suc q" by arith
    ultimately show ?thesis using none by (simp add: extract_paragraph_def slice_to_def)
  qed
  have b: "\<exists>q. last_period_at t q" if "period \<in> set t"
  proof -
    let ?P = "\<lambda>q. q < length t \<and> t ! q = period"
    from that obtain i where i: "?P i" by (auto simp: in_set_conv_nth)
    have bnd: "\<forall>y. ?P y \<longrightarrow> y \<le> length t" by simp
    have g: "?P (Greatest ?P)" using GreatestI_nat [of ?P i "length t"] i by simp
    have "\<forall>r. q < r \<and> r < length t \<longrightarrow> t ! r \<noteq> period" if "q = Greatest ?P" for q
    proof (intro allI impI notI)
      fix r assume "q < r \<and> r < length t" and "t ! r = period"
      then have "?P r" by simp
      then have "r \<le> Greatest ?P" using Greatest_le_nat [of ?P r "length t"] by simp
      with that \<open>q < r \<and> r < length t\<close> show False by simp
    qed
    with g show ?thesis unfolding last_period_at_iff by blast
  qed
  have c: "extract_paragraph t = t" if "period \<notin> set t"
    using that none by (simp add: extract_paragraph_def str_rfind_none)
  from a b c show ?thesis by blast
qed

theorem extract_paragraph_fallback_witness:
  "extract_paragraph (py ''Hello. World.x'') = py ''Hello. World.'' \<and>
   extract_paragraph (py ''no full stop'') = py ''no full stop'' \<and>
   extract_paragraph [] = []"
proof -
  have short: "\<forall>q \<ge> 150. \<not> dot_space_at t q" if "length t < 150" for t
    using that by (simp add: dot_space_at_def)
  have l: "last_period_at (py ''Hello. World.x'') 12"
    by (simp add: last_period_at_def py_def period_def)
  have n: "period \<notin> set (py ''no full stop'')" by (simp add: py_def period_def)
  have "extract_paragraph (py ''Hello. World.x'') = take 13 (py ''Hello. World.x'')"
    using extract_paragraph_fallback [of "py ''Hello. World.x''"] short l by (simp add: py_def)
  moreover have "extract_paragraph (py ''no full stop'') = py ''no full stop''"
    using extract_paragraph_fallback [of "py ''no full stop''"] short n by (simp add: py_def)
  moreover have "extract_paragraph [] = []"
    using extract_paragraph_fallback [of "[]"] short by simp
  ultimately show ?thesis by (simp add: py_def)
qed

section \<open>The context window\<close>

text \<open>
  C5: appending a paragraph to any window gives a window of length
  \<open>min (previous length + 1) 5\<close> with the new paragraph last; what is dropped is dropped
  from the front, so the window is a suffix of the old window with the paragraph appended;
  and starting from the empty window, the window after any sequence of appends is the last
  five paragraphs of that sequence (all of them when there are fewer).
\<close>

theorem update_context_window:
  "length (update_context ctx p) = min (length ctx + 1) 5 \<and>
   last (update_context ctx p) = p \<and>
   update_context ctx p = drop (length ctx + 1 - 5) (ctx @ [p]) \<and>
   suffix (update_context ctx p) (ctx @ [p]) \<and>
   foldl update_context [] ps = drop (length ps - 5) ps"
  for ctx ps :: "'a list"
proof -
  have step: "update_context c x = drop (length c + 1 - 5) (c @ [x])" for c :: "'a list" and x
  proof -
    have "nat (int (length c) + 1 - 5) = length c + 1 - 5" by arith
    then show ?thesis by (simp add: update_context_def slice_from_def Let_def)
  qed
  have run: "foldl update_context c qs = drop (length (c @ qs) - 5) (c @ qs)"
    if "length c \<le> 5" for c qs :: "'a list"
    using that
  proof (induction qs arbitrary: c)
    case Nil
    then show ?case by simp
  next
    case (Cons q qs)
    have l5: "length (update_context c q) \<le> 5" by (simp add: step)
    define d where "d = length c + 1 - 5"
    have d: "d \<le> length (c @ [q])" by (simp add: d_def)
    have u: "update_context c q @ qs = drop d (c @ q # qs)"
      using d by (simp add: step d_def)
    have n: "length (drop d (c @ q # qs)) - 5 + d = length (c @ q # qs) - 5"
      using Cons.prems by (simp add: d_def)
    have "drop (length (update_context c q @ qs) - 5) (update_context c q @ qs)
          = drop (length (c @ q # qs) - 5) (c @ q # qs)"
      unfolding u drop_drop n ..
    with Cons.IH [OF l5] show ?case by simp
  qed
  have "suffix (update_context ctx p) (ctx @ [p])"
    unfolding step by (rule suffix_drop)
  moreover have "last (update_context ctx p) = p" by (simp add: step)
  moreover have "length (update_context ctx p) = min (length ctx + 1) 5" by (simp add: step)
  ultimately show ?thesis using step [of ctx p] run [of "[]" ps] by simp
qed

section \<open>The tokens of a text\<close>

lemma word_run_greedy:
  "cls c = CWord \<Longrightarrow>
   word_run cls c cs =
     Some (c # takeWhile (\<lambda>x. cls x = CWord) cs, dropWhile (\<lambda>x. cls x = CWord) cs)"
  by (induction cs arbitrary: c) (simp_all add: word_boundary_def)

lemma match_at_word:
  assumes "cls c = CWord" "\<not> is_word_char cls before"
  shows "match_at cls before (c # cs) =
           Some (c # takeWhile (\<lambda>x. cls x = CWord) cs, dropWhile (\<lambda>x. cls x = CWord) cs)"
  using assms by (simp add: match_at_def alt_word_def word_boundary_def word_run_greedy)

lemma match_at_space:
  assumes "cls c = CSpace"
  shows "match_at cls before (c # cs) =
           Some (c # takeWhile (\<lambda>x. cls x = CSpace) cs, dropWhile (\<lambda>x. cls x = CSpace) cs)"
  using assms by (simp add: match_at_def alt_word_def alt_space_def)

lemma match_at_other:
  assumes "cls c = COther"
  shows "match_at cls before (c # cs) = Some ([c], cs)"
  using assms by (simp add: match_at_def alt_word_def alt_space_def alt_other_def)

lemma last_run_class: "cls c = k \<Longrightarrow> cls (last (c # takeWhile (\<lambda>x. cls x = k) cs)) = k"
proof -
  assume c: "cls c = k"
  have "\<forall>x \<in> set (c # takeWhile (\<lambda>x. cls x = k) cs). cls x = k"
    using c by (auto dest: set_takeWhileD)
  moreover have "last (c # takeWhile (\<lambda>x. cls x = k) cs) \<in> set (c # takeWhile (\<lambda>x. cls x = k) cs)"
    by (rule last_in_set) simp
  ultimately show ?thesis by blast
qed

lemma findall_concat:
  "(s \<noteq> [] \<longrightarrow> cls (hd s) = CWord \<longrightarrow> \<not> is_word_char cls before) \<Longrightarrow>
   concat (findall cls before s) = s"
proof (induction cls before s rule: findall.induct)
  case (1 cls before)
  show ?case by simp
next
  case (2 cls before c cs)
  show ?case
  proof (cases "cls c")
    case CWord
    let ?t = "c # takeWhile (\<lambda>x. cls x = CWord) cs"
    let ?r = "dropWhile (\<lambda>x. cls x = CWord) cs"
    have m: "match_at cls before (c # cs) = Some (?t, ?r)"
      using CWord "2.prems" by (simp add: match_at_word)
    have "?r \<noteq> [] \<longrightarrow> cls (hd ?r) = CWord \<longrightarrow> \<not> is_word_char cls (Some (last ?t))"
      using hd_dropWhile [of "\<lambda>x. cls x = CWord" cs] by blast
    from "2.IH"(2) [OF m refl this] m show ?thesis by simp
  next
    case CSpace
    let ?t = "c # takeWhile (\<lambda>x. cls x = CSpace) cs"
    let ?r = "dropWhile (\<lambda>x. cls x = CSpace) cs"
    have m: "match_at cls before (c # cs) = Some (?t, ?r)"
      using CSpace by (simp add: match_at_space)
    have "cls (last ?t) = CSpace" using CSpace by (rule last_run_class)
    then have "?r \<noteq> [] \<longrightarrow> cls (hd ?r) = CWord \<longrightarrow> \<not> is_word_char cls (Some (last ?t))"
      by simp
    from "2.IH"(2) [OF m refl this] m show ?thesis by simp
  next
    case COther
    have m: "match_at cls before (c # cs) = Some ([c], cs)"
      using COther by (simp add: match_at_other)
    have "cs \<noteq> [] \<longrightarrow> cls (hd cs) = CWord \<longrightarrow> \<not> is_word_char cls (Some (last [c]))"
      using COther by simp
    from "2.IH"(2) [OF m refl this] m show ?thesis by simp
  qed
qed


text \<open>
  C1: for every string, and whatever the classification of the characters, concatenating
  the tokens of \<open>tokenize\<close> in order gives the string back: no character is dropped and
  none is added.
\<close>

theorem tokenize_concat: "concat (tokenize cls s) = s"
  unfolding tokenize_def by (rule findall_concat) simp



section \<open>Runs in which Ctrl+C is never pressed\<close>

lemma and_then_Inr: "m w = (Inr a, w') \<Longrightarrow> and_then m f w = f a w'"
  by (simp add: and_then_def)

lemma and_then_Inl: "m w = (Inl x, w') \<Longrightarrow> and_then m f w = (Inl x, w')"
  by (simp add: and_then_def)

lemma checkpoint_quiet: "sigint w = None \<Longrightarrow> checkpoint w = (Inr (), w)"
  by (simp add: checkpoint_def)

lemma log_quiet: "sigint w = None \<Longrightarrow> log ev w = (Inr (), w\<lparr>trace := trace w @ [ev]\<rparr>)"
  by (simp add: log_def and_then_def checkpoint_def modify_def)


lemma post_word_quiet:
  "sigint w = None \<Longrightarrow>
   post_word e word n sid w =
     (Inr (word_server e (word_calls w) (word, n, sid)),
      w\<lparr>trace := trace w @ [Word_post word n sid], word_calls := Suc (word_calls w)\<rparr>)"
  by (simp add: post_word_def and_then_def checkpoint_def ret_def)

lemma send_word_to_server_quiet:
  assumes "sigint w = None"
  shows "send_word_to_server e word n sid w =
     (Inr (fst (send_outcome (word_server e (word_calls w) (word, n, sid)))),
      w\<lparr>trace := trace w @ Word_post word n sid
                  # snd (send_outcome (word_server e (word_calls w) (word, n, sid))),
        word_calls := Suc (word_calls w)\<rparr>)"
proof -
  let ?r = "word_server e (word_calls w) (word, n, sid)"
  let ?w = "w\<lparr>trace := trace w @ [Word_post word n sid], word_calls := Suc (word_calls w)\<rparr>"
  have q: "sigint ?w = None" using assms by simp
  have p: "post_word e word n sid w = (Inr ?r, ?w)" using assms by (rule post_word_quiet)
  show ?thesis
  proof (cases ?r)
    case (Raises x)
    then show ?thesis
      using assms
      by (cases x) (simp_all add: send_word_to_server_def and_then_def p log_quiet ret_def)
  next
    case (Returns response)
    then show ?thesis
      using assms
      by (simp add: send_word_to_server_def and_then_def p log_quiet ret_def)
  qed
qed







lemma encodable_ascii: "list_all (\<lambda>c. c < 128) s \<Longrightarrow> encodable e s"
  unfolding encodable_def by (induction s) simp_all

lemma encodable_period: "encodable e [period]"
  by (simp add: encodable_def period_def)


lemma print_text_quiet:
  "sigint w = None \<Longrightarrow> encodable e s \<Longrightarrow>
   print_text e s w = (Inr (), w\<lparr>trace := trace w @ [Print s]\<rparr>)"
  by (simp add: print_text_def and_then_def checkpoint_def modify_def)

lemma sleep_quiet:
  "sigint w = None \<Longrightarrow> time_sleep word_delay = None \<Longrightarrow>
   sleep word_delay w = (Inr (), w\<lparr>trace := trace w @ [Sleep]\<rparr>)"
  by (simp add: sleep_def and_then_def checkpoint_def modify_def)

lemma display_word_quiet:
  assumes "sigint w = None" and "encodable e word" and "time_sleep word_delay = None"
  shows "display_word e word n sid word_delay w =
     (Inr (n + 1),
      w\<lparr>trace := trace w @ word_events e word n sid (word_calls w),
        word_calls := (if enable_posting e then Suc (word_calls w) else word_calls w)\<rparr>)"
  using assms
  by (simp add: display_word_def and_then_def send_word_to_server_quiet print_text_quiet
        sleep_quiet encodable_period checkpoint_quiet ret_def)



lemma printed_append: "printed (a @ b) = printed a @ printed b"
  by (simp add: printed_def)










section \<open>What every run keeps, Ctrl+C or not\<close>

lemma tripleI:
  "(\<And>w r w'. P w \<Longrightarrow> m w = (r, w') \<Longrightarrow> (case r of Inl x \<Rightarrow> E x w' | Inr a \<Rightarrow> Q a w')) \<Longrightarrow>
   triple P m Q E"
proof -
  assume h: "\<And>w r w'. P w \<Longrightarrow> m w = (r, w') \<Longrightarrow> (case r of Inl x \<Rightarrow> E x w' | Inr a \<Rightarrow> Q a w')"
  show ?thesis
    unfolding triple_def
  proof (intro allI impI)
    fix w assume "P w"
    obtain r w' where m: "m w = (r, w')" by (cases "m w")
    from h [OF \<open>P w\<close> m] m
    show "case m w of (Inl x, w') \<Rightarrow> E x w' | (Inr a, w') \<Rightarrow> Q a w'"
      by (cases r) simp_all
  qed
qed

lemma tripleD:
  "triple P m Q E \<Longrightarrow> P w \<Longrightarrow> m w = (r, w') \<Longrightarrow> (case r of Inl x \<Rightarrow> E x w' | Inr a \<Rightarrow> Q a w')"
  unfolding triple_def by (fastforce split: sum.splits prod.splits)

lemma triple_and_then:
  assumes "triple P m Q E" and "\<And>a. triple (Q a) (f a) R E"
  shows "triple P (and_then m f) R E"
proof (rule tripleI)
  fix w r w' assume P: "P w" and run: "and_then m f w = (r, w')"
  obtain r1 w1 where m: "m w = (r1, w1)" by (cases "m w")
  show "case r of Inl x \<Rightarrow> E x w' | Inr a \<Rightarrow> R a w'"
  proof (cases r1)
    case (Inl x)
    with m run have "r = Inl x" "w' = w1" by (simp_all add: and_then_def)
    with tripleD [OF assms(1) P m] Inl show ?thesis by simp
  next
    case (Inr a)
    with m run have "f a w1 = (r, w')" by (simp add: and_then_def)
    moreover have "Q a w1" using tripleD [OF assms(1) P m] Inr by simp
    ultimately show ?thesis using tripleD [OF assms(2)] by blast
  qed
qed

lemma triple_ret: "(\<And>w. P w \<Longrightarrow> Q a w) \<Longrightarrow> triple P (ret a) Q E"
  by (simp add: triple_def ret_def)





lemma triple_if:
  "(b \<Longrightarrow> triple P m Q E) \<Longrightarrow> (\<not> b \<Longrightarrow> triple P m' Q E) \<Longrightarrow>
   triple P (if b then m else m') Q E"
  by simp

lemma word_posts_snoc: "word_posts (tr @ [ev]) = word_posts tr @ word_post_of ev"
  by (simp add: word_posts_def)

lemma reported_snoc: "reported (tr @ [ev]) = reported tr @ summary_of ev"
  by (simp add: reported_def)



lemma in_step_sigint:
  "in_step e q w \<Longrightarrow> (q \<longrightarrow> s = None) \<Longrightarrow> in_step e q (w\<lparr>sigint := s\<rparr>)"
  by (simp add: in_step_def next_is_def sent_ok_def)

lemma sent_ok_sigint:
  "sent_ok e q w \<Longrightarrow> (q \<longrightarrow> s = None) \<Longrightarrow> sent_ok e q (w\<lparr>sigint := s\<rparr>)"
  by (simp add: sent_ok_def)


lemma in_step_sent_ok: "in_step e q w \<Longrightarrow> sent_ok e q w"
  by (simp add: in_step_def next_is_def)

lemma triple_checkpoint:
  assumes stable: "\<And>w s. P w \<Longrightarrow> (q \<longrightarrow> s = None) \<Longrightarrow> P (w\<lparr>sigint := s\<rparr>)"
    and ok: "\<And>w. P w \<Longrightarrow> sent_ok e q w"
  shows "triple P checkpoint (\<lambda>_. P) (failed_ok e q)"
proof (rule tripleI)
  fix w r w' assume P: "P w" and run: "checkpoint w = (r, w')"
  show "case r of Inl x \<Rightarrow> failed_ok e q x w' | Inr a \<Rightarrow> P w'"
  proof (cases "sigint w")
    case None
    with run P show ?thesis by (auto simp: checkpoint_def)
  next
    case (Some k)
    with ok [OF P] have nq: "\<not> q" by (auto simp: sent_ok_def)
    show ?thesis
    proof (cases k)
      case 0
      with Some run have "r = Inl KeyboardInterrupt" "w' = w\<lparr>sigint := None\<rparr>"
        by (auto simp: checkpoint_def)
      with sent_ok_sigint [OF ok [OF P], of None] nq show ?thesis
        by (simp add: failed_ok_def)
    next
      case (Suc j)
      with Some run have "r = Inr ()" "w' = w\<lparr>sigint := Some j\<rparr>"
        by (auto simp: checkpoint_def)
      with stable [OF P, of "Some j"] nq show ?thesis by simp
    qed
  qed
qed


lemma sent_ok_quietly:
  "sent_ok e q w \<Longrightarrow> word_post_of ev = [] \<Longrightarrow> summary_of ev = [] \<Longrightarrow>
   sent_ok e q (w\<lparr>trace := trace w @ [ev]\<rparr>)"
  by (simp add: sent_ok_def post_numbers_def word_posts_snoc reported_snoc)


lemma in_step_quietly:
  "in_step e q w \<Longrightarrow> word_post_of ev = [] \<Longrightarrow> summary_of ev = [] \<Longrightarrow>
   in_step e q (w\<lparr>trace := trace w @ [ev]\<rparr>)"
  by (simp add: in_step_def next_is_def sent_ok_def post_numbers_def word_posts_snoc
        reported_snoc)












lemma in_step_checkpoint:
  "triple (in_step e q) checkpoint (\<lambda>_. in_step e q) (failed_ok e q)"
  by (rule triple_checkpoint) (auto intro: in_step_sigint in_step_sent_ok)







lemma post_probe_in_step:
  "triple (in_step e q) (post_probe e) (\<lambda>_. in_step e q) (failed_ok e q)"
  unfolding post_probe_def
proof (rule triple_and_then [OF in_step_checkpoint])
  fix u :: unit
  show "triple (in_step e q)
          (\<lambda>w. and_then checkpoint (\<lambda>_. ret (probe_result e))
                 (w\<lparr>trace := trace w @ [Probe_post]\<rparr>))
          (\<lambda>_. in_step e q) (failed_ok e q)"
  proof (rule tripleI)
    fix w r w'
    assume P: "in_step e q w"
      and run: "and_then checkpoint (\<lambda>_. ret (probe_result e))
                 (w\<lparr>trace := trace w @ [Probe_post]\<rparr>) = (r, w')"
    have t: "triple (in_step e q) (and_then checkpoint (\<lambda>_. ret (probe_result e)))
            (\<lambda>_. in_step e q) (failed_ok e q)"
      by (rule triple_and_then [OF in_step_checkpoint]) (rule triple_ret)
    from tripleD [OF t in_step_quietly [OF P, of Probe_post] run]
    show "case r of Inl x \<Rightarrow> failed_ok e q x w' | Inr a \<Rightarrow> in_step e q w'" by simp
  qed
qed

















section \<open>Runs that differ only in the posting flag\<close>

































section \<open>Enough fuel\<close>

lemma storytelling_loop_returns:
  "\<not> loop_condition e mt (k + j) \<Longrightarrow> j < fuel \<Longrightarrow>
   \<exists>r w'. storytelling_loop fuel e mt word_delay sid k w = Some (r, w')"
proof (induction j arbitrary: fuel k w)
  case 0
  then obtain f where f: "fuel = Suc f" by (cases fuel) auto
  obtain r0 w0 where c: "checkpoint w = (r0, w0)" by (cases "checkpoint w")
  with 0 f show ?case by (cases r0) auto
next
  case (Suc j)
  then obtain f where f: "fuel = Suc f" and jf: "j < f" by (cases fuel) auto
  obtain r0 w0 where c: "checkpoint w = (r0, w0)" by (cases "checkpoint w")
  show ?case
  proof (cases r0)
    case (Inl x)
    with c f show ?thesis by simp
  next
    case (Inr u)
    show ?thesis
    proof (cases "loop_condition e mt k")
      case False
      with c f Inr show ?thesis by simp
    next
      case True
      obtain r1 w1 where b: "loop_body e sid word_delay w0 = (r1, w1)" by (cases "loop_body e sid word_delay w0")
      show ?thesis
      proof (cases r1)
        case Inl1: (Inl x)
        with c f Inr True b show ?thesis by simp
      next
        case Inr1: (Inr u1)
        from Suc.prems(1) have "\<not> loop_condition e mt (Suc k + j)" by simp
        from Suc.IH [OF this jf, of w1] c f Inr True b Inr1 show ?thesis by simp
      qed
    qed
  qed
qed

lemma run_returns:
  assumes "\<not> loop_condition e mt j" and "j < fuel"
  shows "\<exists>r w'. paragraph_based_storytelling fuel e mt word_delay w = Some (r, w')"
proof -
  obtain r0 w0 where s: "startup e mt w = (r0, w0)" by (cases "startup e mt w")
  show ?thesis
  proof (cases r0)
    case (Inl x)
    with s show ?thesis by (simp add: paragraph_based_storytelling_def Let_def)
  next
    case (Inr u)
    from storytelling_loop_returns [of e mt 0 j fuel word_delay "uuid4 e" w0] assms
    obtain r1 w1 where l: "storytelling_loop fuel e mt word_delay (uuid4 e) 0 w0 = Some (r1, w1)"
      by auto
    obtain ra wa where
      a: "and_then (log (Notice Stopped_by_user)) (\<lambda>_. summary (uuid4 e)) w1 = (ra, wa)"
      by (cases "and_then (log (Notice Stopped_by_user)) (\<lambda>_. summary (uuid4 e)) w1")
    obtain rb wb where b: "summary (uuid4 e) w1 = (rb, wb)" by (cases "summary (uuid4 e) w1")
    show ?thesis
      using s Inr l a b
      by (cases r1; cases "projl r1")
         (auto simp: paragraph_based_storytelling_def Let_def split: sum.splits exc.splits)
  qed
qed

section \<open>Sequence numbers, the posting flag and the loop\<close>


lemma printed_Nil: "printed [] = []"
  by (simp add: printed_def)





lemma quarter_second: "time_sleep (Finite 0.25) = None"
  by (simp add: time_sleep_def)




text \<open>
  C6, where the code departs from the claim: posting is enabled, every delivery is answered
  with status 200, the first generated text is \<^verbatim>\<open>Hi there\<close>, and Ctrl+C arrives when two
  tokens of the first paragraph have been sent and displayed. The run ends with the
  summary, which reports the session id and a word count of 0, although the words numbered
  0 and 1 were sent: the count of the interrupted call is lost with its local variable.
\<close>

theorem interrupt_loses_count:
  "map_option (\<lambda>(r, v). (r, word_posts (trace v), printed (trace v), reported (trace v)))
     (paragraph_based_storytelling 2
        (example_env True (text_response (py ''Hi there'')) (status_response 200)) None
        (Finite 0.25) (start_world (Some 22))) =
   Some (Inr (),
         [(py ''Hi'', 0, py ''session''), (py '' '', 1, py ''session'')],
         [py ''Hi'', py '' ''],
         [(0, py ''session'')])"
  by code_simp

section \<open>What the hypotheses on the delay and the standard output exclude\<close>

text \<open>
  With a negative delay the call leaves with \<open>ValueError\<close> once the first token is
  printed, and a token that the standard output cannot encode leaves it with
  \<open>UnicodeEncodeError\<close> after the tokens before it have been printed. Neither exception
  is caught, so the run ends there without a summary.
\<close>

lemma negative_delay_raises:
  "map_prod id (\<lambda>v. printed (trace v))
     (display_and_send_paragraph_word_by_word
        (example_env False (text_response []) (Raises Timeout))
        (py ''Hi there'') 0 (py ''session'') (Finite (- 1)) (start_world None)) =
   (Inl ValueError, [py ''Hi''])"
  by code_simp

lemma unencodable_raises:
  "map_prod id (\<lambda>v. printed (trace v))
     (display_and_send_paragraph_word_by_word
        (example_env False (text_response []) (Raises Timeout))
        [97, 233, 98] 0 (py ''session'') (Finite 0.25) (start_world None)) =
   (Inl UnicodeEncodeError, [[97]])"
  by code_simp

lemma surrogate_raises:
  "map_prod id (\<lambda>v. printed (trace v))
     (display_and_send_paragraph_word_by_word
        ((example_env False (text_response []) (Raises Timeout))\<lparr>stdout_encodes := utf8_encodes\<rparr>)
        [97, 55296, 98] 0 (py ''session'') (Finite 0.25) (start_world None)) =
   (Inl UnicodeEncodeError, [[97]])"
proof -
  let ?e = "(example_env False (text_response []) (Raises Timeout))\<lparr>stdout_encodes := utf8_encodes\<rparr>"
  have u: "uni_class ?e = (\<lambda>_. COther)" by (simp add: example_env_def)
  have c: "char_class (\<lambda>_. COther) 97 = CWord" "char_class (\<lambda>_. COther) 55296 = COther"
    "char_class (\<lambda>_. COther) 98 = CWord"
    by (simp_all add: char_class_def ascii_class_def)
  have t: "tokenize (char_class (uni_class ?e)) [97, 55296, 98] = [[97], [55296], [98]]"
    unfolding u
    by (simp add: tokenize_def match_at_def alt_word_def alt_space_def alt_other_def
          word_boundary_def c)
  have q: "sigint (start_world None) = None" by (simp add: start_world_def)
  have p: "\<not> enable_posting ?e" by (simp add: example_env_def)
  have ok: "encodable ?e [97]" by (simp add: encodable_def)
  have bad: "\<not> encodable ?e [55296]" by (simp add: encodable_def utf8_encodes_def)
  define d where "d = Finite 0.25"
  have dq: "time_sleep d = None" unfolding d_def by (rule quarter_second)
  have first: "display_word ?e [97] 0 (py ''session'') d (start_world None) =
      (Inr 1, (start_world None)\<lparr>trace := [Print [97], Sleep]\<rparr>)"
    using display_word_quiet [OF q ok dq, of 0 "py ''session''"] p
    by (simp add: start_world_def)
  have second: "display_word ?e [55296] 1 (py ''session'') d
        ((start_world None)\<lparr>trace := [Print [97], Sleep]\<rparr>) =
      (Inl UnicodeEncodeError, (start_world None)\<lparr>trace := [Print [97], Sleep]\<rparr>)"
    using p bad
    by (simp add: display_word_def and_then_def ret_def checkpoint_def print_text_def raise_def
          start_world_def)
  show ?thesis
    unfolding display_and_send_paragraph_word_by_word_def t d_def [symmetric]
    by (simp add: and_then_def first second printed_def)
qed

lemma negative_delay_run:
  "map_option (\<lambda>(r, v). (r, printed (trace v), reported (trace v)))
     (paragraph_based_storytelling 2
        (example_env False (text_response (py ''Hi there'')) (Raises Timeout)) None
        (Finite (- 1)) (start_world None)) =
   Some (Inl ValueError, [py ''Hi''], [])"
  by code_simp


end
